theory Spec2Isabelle
  imports Complex_Main "HOL-Library.AList"
begin

section \<open>Values, errors and contexts\<close>

text \<open>
  A value of the UI tree and of the expression language (\<open>any\<close> in the source): the JSON
  values together with \<open>undefined\<close>. A string is the list of its code units; the model has
  the 256 code units a \<open>char\<close> can hold. A number is the rational its numeral denotes
  (rounding to a double is not modelled). An object is the list of its own enumerable
  properties in enumeration order; the keys of an object are distinct.
\<close>

datatype jsval =
    JUndefined
  | JNull
  | JBool bool
  | JNum rat
  | JStr string
  | JArr "jsval list"
  | JObj "(string \<times> jsval) list"

text \<open>
  The errors the code raises: \<open>BeagleParseError\<close> and \<open>BeagleNotFoundError\<close> with their
  messages, and the \<open>TypeError\<close> the run-time raises itself.
\<close>

datatype error =
    BeagleParseError string
  | BeagleNotFoundError string
  | TypeError string

text \<open>\<open>DataContext\<close>: a named scope.\<close>

record DataContext =
  ctx_id :: string
  ctx_value :: jsval

text \<open>
  What the module imports and this development does not own: the operation registry
  (\<open>operations\<close>, a function of the resolved parameters that returns or throws), the
  context provider \<open>getContextHierarchy\<close>, lodash's \<open>get\<close>, and the run-time's
  \<open>JSON.stringify\<close> and number-to-string conversion.
\<close>

record env =
  operations :: "string \<Rightarrow> (jsval list \<Rightarrow> error + jsval) option"
  getContextHierarchy :: "jsval \<Rightarrow> DataContext list \<Rightarrow> DataContext list"
  lodash_get :: "jsval \<Rightarrow> string \<Rightarrow> jsval"
  JSON_stringify :: "jsval \<Rightarrow> string"
  Number_toString :: "rat \<Rightarrow> string"

text \<open>
  Modelled from the spec: \<open>getContextInHierarchy\<close> of the module \<open>./context\<close>, which is
  not among the sources. The hierarchy runs from the outermost to the innermost scope and
  the innermost (last) context is checked first; no context with the id gives \<open>None\<close>.
\<close>

definition getContextInHierarchy :: "DataContext list \<Rightarrow> string \<Rightarrow> DataContext option" where
  "getContextInHierarchy contextHierarchy contextId =
     find (\<lambda>c. ctx_id c = contextId) (rev contextHierarchy)"

section \<open>Characters and strings\<close>

abbreviation (input) apostrophe :: char where "apostrophe \<equiv> CHR 0x27"
abbreviation (input) backslash :: char where "backslash \<equiv> CHR 0x5C"
abbreviation (input) dquote :: char where "dquote \<equiv> CHR 0x22"

text \<open>The classes \<open>\d\<close>, \<open>\w\<close> and \<open>.\<close> (any code unit that is no line terminator).\<close>

definition is_digit :: "char \<Rightarrow> bool" where
  "is_digit c = (let n = (of_char c :: nat) in 48 \<le> n \<and> n \<le> 57)"

definition is_word :: "char \<Rightarrow> bool" where
  "is_word c = (let n = (of_char c :: nat) in
     (48 \<le> n \<and> n \<le> 57) \<or> (65 \<le> n \<and> n \<le> 90) \<or> (97 \<le> n \<and> n \<le> 122) \<or> n = 95)"

definition is_dot :: "char \<Rightarrow> bool" where
  "is_dot c = (c \<noteq> CHR 0x0A \<and> c \<noteq> CHR 0x0D)"

text \<open>White space and line terminators, which \<open>trim\<close> removes.\<close>

definition is_space :: "char \<Rightarrow> bool" where
  "is_space c = (let n = (of_char c :: nat) in (9 \<le> n \<and> n \<le> 13) \<or> n = 32 \<or> n = 160)"

definition trim :: "string \<Rightarrow> string" where
  "trim s = rev (dropWhile is_space (rev (dropWhile is_space s)))"

definition startsWith :: "string \<Rightarrow> string \<Rightarrow> bool" where
  "startsWith s p = (take (length p) s = p)"

definition endsWith :: "string \<Rightarrow> string \<Rightarrow> bool" where
  "endsWith s p = (length p \<le> length s \<and> drop (length s - length p) s = p)"

section \<open>Regular expressions with backtracking\<close>

text \<open>
  The regular expressions of the source are matched as the run-time matches them: by
  backtracking, the alternatives of \<open>|\<close> tried from left to right and \<open>*\<close> greedy.
  \<open>rmatch r s\<close> lists, in that order of preference, the lengths of the prefixes of \<open>s\<close>
  that \<open>r\<close> can consume; the match the run-time reports is the first one that lets the
  rest of the pattern succeed. An iteration of \<open>*\<close> that consumes nothing is rejected,
  as ECMAScript has it.
\<close>

datatype regex =
    Chr "char \<Rightarrow> bool"
  | Eps
  | Eol
  | Seq regex regex
  | Alt regex regex
  | Star regex

function rmatch :: "regex \<Rightarrow> string \<Rightarrow> nat list" where
  "rmatch (Chr p) s = (case s of [] \<Rightarrow> [] | c # cs \<Rightarrow> if p c then [1] else [])"
| "rmatch Eps s = [0]"
| "rmatch Eol s = (if s = [] then [0] else [])"
| "rmatch (Seq a b) s = concat (map (\<lambda>i. map (\<lambda>j. i + j) (rmatch b (drop i s))) (rmatch a s))"
| "rmatch (Alt a b) s = rmatch a s @ rmatch b s"
| "rmatch (Star a) s =
     concat (map (\<lambda>i. if 0 < i \<and> i \<le> length s
                       then map (\<lambda>j. i + j) (rmatch (Star a) (drop i s)) else [])
                 (rmatch a s)) @ [0]"
  by pat_completeness auto
termination
  by (relation "measures [\<lambda>(r, s). length s, \<lambda>(r, s). size r]") auto

text \<open>\<open>r+\<close>, \<open>r?\<close>, one given character, and a literal text.\<close>

definition Plus :: "regex \<Rightarrow> regex" where
  "Plus r = Seq r (Star r)"

definition Opt :: "regex \<Rightarrow> regex" where
  "Opt r = Alt r Eps"

definition Ch :: "char \<Rightarrow> regex" where
  "Ch c = Chr (\<lambda>x. x = c)"

fun Lit :: "string \<Rightarrow> regex" where
  "Lit [] = Eps"
| "Lit (c # cs) = Seq (Ch c) (Lit cs)"

text \<open>
  A pattern anchored at the start of the input, given as the sequence of its top-level
  parts, so that the text of a capture group is the text its part consumed.
  \<open>rmatch_seq\<close> lists the ways the parts can match, each as the lengths the parts
  consume; \<open>exec\<close> is the way the run-time finds first, \<open>None\<close> when there is none.
\<close>

fun rmatch_seq :: "regex list \<Rightarrow> string \<Rightarrow> nat list list" where
  "rmatch_seq [] s = [[]]"
| "rmatch_seq (r # rs) s =
     concat (map (\<lambda>i. map (\<lambda>ls. i # ls) (rmatch_seq rs (drop i s))) (rmatch r s))"

definition exec :: "regex list \<Rightarrow> string \<Rightarrow> nat list option" where
  "exec parts s = (case rmatch_seq parts s of [] \<Rightarrow> None | ls # _ \<Rightarrow> Some ls)"

definition test :: "regex \<Rightarrow> string \<Rightarrow> bool" where
  "test r s = (rmatch r s \<noteq> [])"

section \<open>The patterns of the module\<close>

abbreviation (input) binding_open :: string where "binding_open \<equiv> [CHR 0x40, CHR 0x7B]"
abbreviation (input) binding_close :: string where "binding_close \<equiv> [CHR 0x7D]"

text \<open>
  A quoted string inside a binding, \<^verbatim>\<open>'([^'\\]|\\.)*'\<close>, and the text of a binding,
  \<^verbatim>\<open>([^'\}]|('([^'\\]|\\.)*'))*\<close>.
\<close>

definition quoted_string :: regex where
  "quoted_string =
     Seq (Ch apostrophe)
       (Seq (Star (Alt (Chr (\<lambda>c. c \<noteq> apostrophe \<and> c \<noteq> backslash))
                       (Seq (Ch backslash) (Chr is_dot))))
            (Ch apostrophe))"

definition binding_body :: regex where
  "binding_body = Star (Alt (Chr (\<lambda>c. c \<noteq> apostrophe \<and> c \<noteq> CHR 0x7D)) quoted_string)"

text \<open>
  \<open>bindingRegex\<close>: any backslashes (group 1), the opening at-sign and brace, the text of
  the binding (group 2), the closing brace. \<open>fullBindingRegex\<close>: the same without the
  backslashes, anchored at both ends.
\<close>

definition bindingRegex :: "regex list" where
  "bindingRegex = [Star (Ch backslash), Lit binding_open, binding_body, Lit binding_close]"

definition fullBindingRegex :: "regex list" where
  "fullBindingRegex = [Lit binding_open, binding_body, Lit binding_close, Eol]"

text \<open>
  The path of a context binding, \<^verbatim>\<open>^[\w\d_]+(\[\d+\])*(\.([\w\d_]+(\[\d+\])*))*$\<close>, and
  the pattern that splits it, \<^verbatim>\<open>^([^\.\[\]]+)\.?(.*)\<close>.
\<close>

definition path_name :: regex where
  "path_name = Plus (Chr (\<lambda>c. is_word c \<or> is_digit c \<or> c = CHR ''_''))"

definition path_index :: regex where
  "path_index = Seq (Ch (CHR ''['')) (Seq (Plus (Chr is_digit)) (Ch (CHR '']'')))"

definition pathRegex :: regex where
  "pathRegex =
     Seq path_name
       (Seq (Star path_index)
            (Seq (Star (Seq (Ch (CHR ''.'')) (Seq path_name (Star path_index)))) Eol))"

definition pathSplitRegex :: "regex list" where
  "pathSplitRegex =
     [Plus (Chr (\<lambda>c. c \<noteq> CHR ''.'' \<and> c \<noteq> CHR ''['' \<and> c \<noteq> CHR '']'')),
      Opt (Ch (CHR ''.'')),
      Star (Chr is_dot)]"

text \<open>An operation call, \<^verbatim>\<open>^(\w[\w\d_]*)\((.*)\)$\<close>.\<close>

definition operationRegex :: "regex list" where
  "operationRegex =
     [Seq (Chr is_word) (Star (Chr (\<lambda>c. is_word c \<or> is_digit c \<or> c = CHR ''_''))),
      Lit ''('',
      Star (Chr is_dot),
      Lit '')'',
      Eol]"

text \<open>A number, \<^verbatim>\<open>^\d+(\.\d+)?$\<close>.\<close>

definition numberRegex :: regex where
  "numberRegex =
     Seq (Plus (Chr is_digit)) (Seq (Opt (Seq (Ch (CHR ''.'')) (Plus (Chr is_digit)))) Eol)"

text \<open>
  A string as the parameter automaton reads it, \<^verbatim>\<open>'([^']|(\\.))*'\<close>. Its first
  alternative accepts a backslash, unlike the one of \<open>quoted_string\<close>.
\<close>

definition string_pattern :: regex where
  "string_pattern =
     Seq (Ch apostrophe)
       (Seq (Star (Alt (Chr (\<lambda>c. c \<noteq> apostrophe)) (Seq (Ch backslash) (Chr is_dot))))
            (Ch apostrophe))"

section \<open>The pushdown automaton\<close>

text \<open>
  Modelled from the spec: the module \<open>./utils/Automaton\<close> is not among the sources. A
  transition may read a text or a pattern at the start of the remaining input, may pop a
  symbol (or require the empty stack, \<open>Automaton.empty\<close>), may push a symbol, and names the
  next state. In each state the transitions are tried in the order of their declaration
  and the first that applies is taken; the match fails when none applies and succeeds when
  the final state is reached, returning the prefix consumed.
\<close>

datatype reader = ReadText string | ReadPattern regex

datatype popper = PopSymbol string | PopEmpty

record 's transition =
  read :: "reader option"
  push :: "string option"
  pop :: "popper option"
  next_state :: 's

record 's dpa =
  dpa_initial :: 's
  dpa_final :: 's
  dpa_transitions :: "'s \<Rightarrow> 's transition list"

definition popMatches :: "string list \<Rightarrow> 's transition \<Rightarrow> bool" where
  "popMatches stack t =
     (case pop t of
        None \<Rightarrow> True
      | Some PopEmpty \<Rightarrow> stack = []
      | Some (PopSymbol x) \<Rightarrow> (case stack of [] \<Rightarrow> False | y # _ \<Rightarrow> y = x))"

definition prefixMatches :: "string \<Rightarrow> 's transition \<Rightarrow> bool" where
  "prefixMatches remainingInput t =
     (case read t of
        None \<Rightarrow> True
      | Some (ReadText x) \<Rightarrow> startsWith remainingInput x
      | Some (ReadPattern r) \<Rightarrow> test r remainingInput)"

definition matchTransition :: "string list \<Rightarrow> string \<Rightarrow> 's transition \<Rightarrow> bool" where
  "matchTransition stack remainingInput t =
     (popMatches stack t \<and> prefixMatches remainingInput t)"

text \<open>The length of what the transition taken reads, and the stack after it.\<close>

definition matchedLength :: "string \<Rightarrow> 's transition \<Rightarrow> nat" where
  "matchedLength remainingInput t =
     (case read t of
        None \<Rightarrow> 0
      | Some (ReadText x) \<Rightarrow> length x
      | Some (ReadPattern r) \<Rightarrow> (case rmatch r remainingInput of [] \<Rightarrow> 0 | n # _ \<Rightarrow> n))"

definition updateStack :: "string list \<Rightarrow> 's transition \<Rightarrow> string list" where
  "updateStack stack t =
     (let popped = (case pop t of None \<Rightarrow> stack | Some _ \<Rightarrow> tl stack)
      in case push t of None \<Rightarrow> popped | Some x \<Rightarrow> x # popped)"

text \<open>
  The loop of a match. Nothing bounds the transitions that read nothing, so the loop need
  not end: \<open>None\<close> is a run that never returns, \<open>Some None\<close> the failure of the match,
  \<open>Some (Some rest)\<close> the input that remains at the final state.
\<close>

partial_function (option) dpa_run ::
  "'s dpa \<Rightarrow> 's \<Rightarrow> string list \<Rightarrow> string \<Rightarrow> string option option" where
  "dpa_run A currentState stack remainingInput =
     (if currentState = dpa_final A then Some (Some remainingInput)
      else case find (matchTransition stack remainingInput) (dpa_transitions A currentState) of
             None \<Rightarrow> Some None
           | Some t \<Rightarrow>
               dpa_run A (next_state t) (updateStack stack t)
                 (drop (matchedLength remainingInput t) remainingInput))"

declare dpa_run.simps [code]

definition dpa_match :: "'s dpa \<Rightarrow> string \<Rightarrow> string option option" where
  "dpa_match A input =
     (case dpa_run A (dpa_initial A) [] input of
        None \<Rightarrow> None
      | Some None \<Rightarrow> Some None
      | Some (Some remainingInput) \<Rightarrow>
          Some (Some (take (length input - length remainingInput) input)))"

section \<open>parseParameters\<close>

datatype pstate = initial | final | insideParameterList | isParameterListOver

fun transitions :: "pstate \<Rightarrow> pstate transition list" where
  "transitions initial =
     [\<lparr>read = Some (ReadPattern (Alt (Ch (CHR '','')) Eol)), push = None, pop = None,
        next_state = final\<rparr>,
      \<lparr>read = Some (ReadText ''(''), push = Some ''('', pop = None,
        next_state = insideParameterList\<rparr>,
      \<lparr>read = Some (ReadPattern string_pattern), push = None, pop = None,
        next_state = initial\<rparr>,
      \<lparr>read = Some (ReadPattern (Chr (\<lambda>c. c \<noteq> CHR '')''))), push = None, pop = None,
        next_state = initial\<rparr>]"
| "transitions insideParameterList =
     [\<lparr>read = Some (ReadText ''(''), push = Some ''('', pop = None,
        next_state = insideParameterList\<rparr>,
      \<lparr>read = Some (ReadText '')''), push = None, pop = Some (PopSymbol ''(''),
        next_state = isParameterListOver\<rparr>,
      \<lparr>read = Some (ReadPattern string_pattern), push = None, pop = None,
        next_state = insideParameterList\<rparr>,
      \<lparr>read = Some (ReadPattern (Chr is_dot)), push = None, pop = None,
        next_state = insideParameterList\<rparr>]"
| "transitions isParameterListOver =
     [\<lparr>read = None, push = None, pop = Some PopEmpty, next_state = initial\<rparr>,
      \<lparr>read = None, push = None, pop = None, next_state = insideParameterList\<rparr>]"
| "transitions final = []"

definition dpa :: "pstate dpa" where
  "dpa = \<lparr>dpa_initial = initial, dpa_final = final, dpa_transitions = transitions\<rparr>"

text \<open>\<^verbatim>\<open>match.replace(/,$/, '')\<close>: a comma at the end is removed.\<close>

definition removeTrailingComma :: "string \<Rightarrow> string" where
  "removeTrailingComma s = (if s \<noteq> [] \<and> last s = CHR '','' then butlast s else s)"

definition wrong_format_message :: "string \<Rightarrow> string" where
  "wrong_format_message parameterString = ''wrong format for parameters: '' @ parameterString"

text \<open>
  The loop of \<open>parseParameters\<close>. A match that is \<open>null\<close> or empty is falsy and raises
  the parse error, so the position advances in every iteration that goes on.
\<close>

function parseParameters_loop ::
  "string \<Rightarrow> nat \<Rightarrow> string list \<Rightarrow> (error + string list) option" where
  "parseParameters_loop parameterString position parameters =
     (if position < length parameterString then
        (case dpa_match dpa (drop position parameterString) of
           None \<Rightarrow> None
         | Some None \<Rightarrow> Some (Inl (BeagleParseError (wrong_format_message parameterString)))
         | Some (Some mtch) \<Rightarrow>
             if mtch = [] then
               Some (Inl (BeagleParseError (wrong_format_message parameterString)))
             else parseParameters_loop parameterString (position + length mtch)
                    (parameters @ [trim (removeTrailingComma mtch)]))
      else Some (Inr parameters))"
  by pat_completeness auto
termination
  by (relation "measure (\<lambda>(parameterString, position, parameters).
        length parameterString - position)") (auto simp: length_greater_0_conv [symmetric] simp del: length_greater_0_conv)

definition parseParameters :: "string \<Rightarrow> (error + string list) option" where
  "parseParameters parameterString = parseParameters_loop parameterString 0 []"

section \<open>Bounds on what a pattern consumes\<close>

declare rmatch.simps(6) [simp del]

lemma rmatch_Star_iff:
  "n \<in> set (rmatch (Star a) s) \<longleftrightarrow>
     n = 0 \<or> (\<exists>i j. i \<in> set (rmatch a s) \<and> 0 < i \<and> i \<le> length s \<and>
                  j \<in> set (rmatch (Star a) (drop i s)) \<and> n = i + j)"
  by (subst rmatch.simps(6)) (auto split: if_splits)

lemma rmatch_le: "n \<in> set (rmatch r s) \<Longrightarrow> n \<le> length s"
proof (induction r s arbitrary: n rule: rmatch.induct)
  case (1 p s)
  then show ?case by (auto split: list.splits if_splits)
next
  case (4 a b s)
  from "4.prems" obtain i j where ij: "i \<in> set (rmatch a s)" "j \<in> set (rmatch b (drop i s))" "n = i + j"
    by auto
  from "4.IH"(1) [OF ij(1)] have "i \<le> length s" .
  moreover from "4.IH"(2) [OF ij(1) ij(2)] have "j \<le> length s - i" by simp
  ultimately show ?case using ij(3) by simp
next
  case (6 a s)
  show ?case
  proof (cases "n = 0")
    case True
    then show ?thesis by simp
  next
    case False
    with "6.prems" obtain i j where ij: "i \<in> set (rmatch a s)" "0 < i" "i \<le> length s"
      "j \<in> set (rmatch (Star a) (drop i s))" "n = i + j"
      unfolding rmatch_Star_iff [of n a s] by blast
    from "6.IH"(2) [OF ij(1) _ ij(4)] ij(2,3) have "j \<le> length s - i" by simp
    with ij show ?thesis by simp
  qed
qed (auto split: if_splits)

lemma rmatch_seq_Cons_iff:
  "ls \<in> set (rmatch_seq (r # rs) s) \<longleftrightarrow>
     (\<exists>i ls'. ls = i # ls' \<and> i \<in> set (rmatch r s) \<and> ls' \<in> set (rmatch_seq rs (drop i s)))"
  by auto

lemma rmatch_seq_le: "ls \<in> set (rmatch_seq parts s) \<Longrightarrow> sum_list ls \<le> length s"
proof (induction parts arbitrary: ls s)
  case Nil
  then show ?case by simp
next
  case (Cons r rs)
  from Cons.prems obtain i ls' where a: "ls = i # ls'" "i \<in> set (rmatch r s)"
    "ls' \<in> set (rmatch_seq rs (drop i s))"
    unfolding rmatch_seq_Cons_iff by blast
  from Cons.IH [OF a(3)] rmatch_le [OF a(2)] a(1) show ?case by simp
qed

lemma rmatch_seq_length: "ls \<in> set (rmatch_seq parts s) \<Longrightarrow> length ls = length parts"
  by (induction parts arbitrary: ls s) auto

lemma exec_SomeD: "exec parts s = Some ls \<Longrightarrow> ls \<in> set (rmatch_seq parts s)"
  by (auto simp: exec_def split: list.splits)

lemma rmatch_Ch [simp]: "rmatch (Ch c) s = (case s of [] \<Rightarrow> [] | x # _ \<Rightarrow> if x = c then [1] else [])"
  by (simp add: Ch_def)

lemma rmatch_Lit: "rmatch (Lit x) s = (if startsWith s x then [length x] else [])"
  by (induction x arbitrary: s) (auto simp: startsWith_def split: list.splits)

lemma exec_le: "exec parts s = Some ls \<Longrightarrow> sum_list ls \<le> length s"
  by (rule rmatch_seq_le [OF exec_SomeD])

lemma length_trim_le: "length (trim s) \<le> length s"
proof -
  have "length (trim s) \<le> length (dropWhile is_space s)"
    unfolding trim_def length_rev
    by (rule order_trans [OF length_dropWhile_le]) simp
  also have "\<dots> \<le> length s" by (rule length_dropWhile_le)
  finally show ?thesis .
qed

lemma length_removeTrailingComma_le: "length (removeTrailingComma s) \<le> length s"
  by (simp add: removeTrailingComma_def)

lemma dpa_match_le: "dpa_match A input = Some (Some mtch) \<Longrightarrow> length mtch \<le> length input"
  by (auto simp: dpa_match_def split: option.splits)

lemma parseParameters_loop_le:
  "parseParameters_loop ps position parameters = Some (Inr result) \<Longrightarrow>
   \<forall>p \<in> set parameters. length p \<le> length ps \<Longrightarrow>
   \<forall>p \<in> set result. length p \<le> length ps"
proof (induction ps position parameters rule: parseParameters_loop.induct)
  case (1 ps position parameters)
  show ?case
  proof (cases "position < length ps")
    case False
    with "1.prems" show ?thesis by simp
  next
    case True
    with "1.prems"(1) obtain mtch where m: "dpa_match dpa (drop position ps) = Some (Some mtch)"
      "mtch \<noteq> []"
      "parseParameters_loop ps (position + length mtch)
         (parameters @ [trim (removeTrailingComma mtch)]) = Some (Inr result)"
      by (auto split: option.splits if_splits)
    have "length (trim (removeTrailingComma mtch)) \<le> length mtch"
      by (rule order_trans [OF length_trim_le length_removeTrailingComma_le])
    also have "\<dots> \<le> length ps"
      using dpa_match_le [OF m(1)] by simp
    finally have "\<forall>p \<in> set (parameters @ [trim (removeTrailingComma mtch)]). length p \<le> length ps"
      using "1.prems"(2) by simp
    from "1.IH" [OF True m(1) refl m(2) m(3) this] show ?thesis .
  qed
qed

lemma parseParameters_le:
  "parseParameters ps = Some (Inr params) \<Longrightarrow> p \<in> set params \<Longrightarrow> length p \<le> length ps"
  using parseParameters_loop_le [of ps 0 "[]" params] by (simp add: parseParameters_def)

section \<open>Literals\<close>

text \<open>
  \<open>parseFloat\<close> on the numerals the code passes to it (digits, with or without a point and
  more digits): the value of the decimal numeral.
\<close>

definition digits_value :: "string \<Rightarrow> nat" where
  "digits_value ds = foldl (\<lambda>a c. 10 * a + (of_char c - 48)) 0 ds"

definition parseFloat :: "string \<Rightarrow> rat" where
  "parseFloat s =
     (let whole = takeWhile is_digit s; fraction = drop (Suc (length whole)) s
      in of_nat (digits_value whole) + of_nat (digits_value fraction) / 10 ^ length fraction)"

text \<open>
  \<^verbatim>\<open>replace(/(^')|('$)/g, '')\<close>: an apostrophe at the start is removed, and one at the end
  of what is left. \<^verbatim>\<open>replace(/\\'/g, '\'')\<close>: every backslash before an apostrophe is
  removed, from left to right.
\<close>

definition stripQuotes :: "string \<Rightarrow> string" where
  "stripQuotes s =
     (let s1 = (if startsWith s [apostrophe] then tl s else s)
      in if endsWith s1 [apostrophe] then butlast s1 else s1)"

fun unescapeQuotes :: "string \<Rightarrow> string" where
  "unescapeQuotes (a # b # cs) =
     (if a = backslash \<and> b = apostrophe then apostrophe # unescapeQuotes cs
      else a # unescapeQuotes (b # cs))"
| "unescapeQuotes cs = cs"

text \<open>\<open>getLiteralValue\<close> returns \<open>undefined\<close> by falling off its end.\<close>

definition getLiteralValue :: "string \<Rightarrow> jsval" where
  "getLiteralValue literal =
     (if literal = ''true'' then JBool True
      else if literal = ''false'' then JBool False
      else if literal = ''null'' then JNull
      else if test numberRegex literal then JNum (parseFloat literal)
      else if startsWith literal [apostrophe] \<and> endsWith literal [apostrophe]
        then JStr (unescapeQuotes (stripQuotes literal))
      else JUndefined)"

section \<open>Context bindings\<close>

definition invalid_path_message :: "string \<Rightarrow> string" where
  "invalid_path_message path =
     ''invalid path '' @ [dquote] @ path @ [dquote] @
     ''. Please, make sure your variable names contain only letters, numbers and the symbol '' @
     [dquote] @ ''_'' @ [dquote] @ ''. To access substructures use '' @ [dquote] @ ''.'' @
     [dquote] @ '' and to access array indexes use '' @ [dquote] @ ''[index]'' @ [dquote] @ ''.''"

text \<open>The texts of the parts of a match, from the lengths the parts consumed.\<close>

fun parts_text :: "string \<Rightarrow> nat list \<Rightarrow> string list" where
  "parts_text s [] = []"
| "parts_text s (n # ns) = take n s # parts_text (drop n s) ns"

definition match_parts :: "regex list \<Rightarrow> string \<Rightarrow> string list option" where
  "match_parts parts s = map_option (parts_text s) (exec parts s)"

definition getBindingValue :: "env \<Rightarrow> string \<Rightarrow> DataContext list \<Rightarrow> error + jsval" where
  "getBindingValue E path contextHierarchy =
     (if \<not> test pathRegex path then Inl (BeagleParseError (invalid_path_message path))
      else case match_parts pathSplitRegex path of
             Some [contextId, _, contextPath] \<Rightarrow>
               (case getContextInHierarchy contextHierarchy contextId of
                  None \<Rightarrow> Inr JUndefined
                | Some context \<Rightarrow>
                    Inr (if contextPath \<noteq> [] then lodash_get E (ctx_value context) contextPath
                         else ctx_value context))
           | _ \<Rightarrow> Inr JUndefined)"

section \<open>Operations and expressions\<close>

lemma operationRegex_paramString:
  assumes "match_parts operationRegex operation = Some [operationName, a, paramString, b, c]"
  shows "length paramString < length operation"
proof -
  from assms obtain ls where ls: "exec operationRegex operation = Some ls"
    "parts_text operation ls = [operationName, a, paramString, b, c]"
    by (auto simp: match_parts_def)
  from exec_SomeD [OF ls(1)] obtain i j k rest where shape: "ls = i # j # k # rest"
    and j: "j \<in> set (rmatch (Lit ''('') (drop i operation))"
    unfolding operationRegex_def rmatch_seq_Cons_iff by blast
  from j have "j = 1" by (auto simp: rmatch_Lit split: if_splits)
  moreover from exec_le [OF ls(1)] shape have "i + j + k \<le> length operation" by simp
  moreover from ls(2) shape have "paramString = take k (drop j (drop i operation))" by simp
  ultimately show ?thesis by simp
qed

definition invalid_operation_message :: "string \<Rightarrow> string" where
  "invalid_operation_message operation = ''invalid operation in expression: '' @ operation"

definition not_found_message :: "string \<Rightarrow> string" where
  "not_found_message operationName =
     ''operation with name '' @ [dquote] @ operationName @ [dquote] @
     '' doesn'' @ [apostrophe] @ ''t exist.''"

text \<open>
  \<open>params.map(...)\<close> and every other sequence of evaluations: they run in order, and the
  first that throws or does not return ends the sequence.
\<close>

fun sequence :: "(error + 'a) option list \<Rightarrow> (error + 'a list) option" where
  "sequence [] = Some (Inr [])"
| "sequence (x # xs) =
     (case x of
        None \<Rightarrow> None
      | Some (Inl e) \<Rightarrow> Some (Inl e)
      | Some (Inr v) \<Rightarrow>
          (case sequence xs of
             None \<Rightarrow> None
           | Some (Inl e) \<Rightarrow> Some (Inl e)
           | Some (Inr vs) \<Rightarrow> Some (Inr (v # vs))))"

function evaluateExpression :: "env \<Rightarrow> string \<Rightarrow> DataContext list \<Rightarrow> (error + jsval) option"
  and getOperationValue :: "env \<Rightarrow> string \<Rightarrow> DataContext list \<Rightarrow> (error + jsval) option"
where
  "evaluateExpression E expression contextHierarchy =
     (let literalValue = getLiteralValue expression
      in if literalValue \<noteq> JUndefined then Some (Inr literalValue)
         else if CHR ''('' \<in> set expression
           then getOperationValue E expression contextHierarchy
         else Some (getBindingValue E expression contextHierarchy))"
| "getOperationValue E operation contextHierarchy =
     (case match_parts operationRegex operation of
        Some [operationName, _, paramString, _, _] \<Rightarrow>
          (case operations E operationName of
             None \<Rightarrow> Some (Inl (BeagleNotFoundError (not_found_message operationName)))
           | Some f \<Rightarrow>
               (case parseParameters paramString of
                  None \<Rightarrow> None
                | Some (Inl e) \<Rightarrow> Some (Inl e)
                | Some (Inr params) \<Rightarrow>
                    (case sequence (map (\<lambda>param. evaluateExpression E param contextHierarchy)
                                        params) of
                       None \<Rightarrow> None
                     | Some (Inl e) \<Rightarrow> Some (Inl e)
                     | Some (Inr resolvedParams) \<Rightarrow> Some (f resolvedParams))))
      | _ \<Rightarrow> Some (Inl (BeagleParseError (invalid_operation_message operation))))"
  by pat_completeness auto
termination
proof (relation "measure (\<lambda>x. case x of
          Inl (E, expression, h) \<Rightarrow> 2 * length expression + 1
        | Inr (E, operation, h) \<Rightarrow> 2 * length operation)", goal_cases)
  case 1
  show ?case by simp
next
  case 2
  show ?case by simp
next
  case prems: (3 E operation contextHierarchy ys operationName xs a xs1 paramString xs2 b xs3 c
      xs4 f r params param)
  from prems have "match_parts operationRegex operation = Some [operationName, a, paramString, b, c]"
    by simp
  from operationRegex_paramString [OF this]
  have "length paramString < length operation" .
  moreover from prems have "parseParameters paramString = Some (Inr params)" "param \<in> set params"
    by simp_all
  from parseParameters_le [OF this] have "length param \<le> length paramString" .
  ultimately show ?case by simp
qed

declare evaluateExpression.simps [simp del] getOperationValue.simps [simp del]

section \<open>Typeof and conversion to a string\<close>

definition typeof :: "jsval \<Rightarrow> string" where
  "typeof v =
     (case v of
        JUndefined \<Rightarrow> ''undefined''
      | JNull \<Rightarrow> ''object''
      | JBool _ \<Rightarrow> ''boolean''
      | JNum _ \<Rightarrow> ''number''
      | JStr _ \<Rightarrow> ''string''
      | JArr _ \<Rightarrow> ''object''
      | JObj _ \<Rightarrow> ''object'')"

fun join :: "string \<Rightarrow> string list \<Rightarrow> string" where
  "join sep [] = []"
| "join sep [x] = x"
| "join sep (x # y # ys) = x @ sep @ join sep (y # ys)"

text \<open>
  The conversion a template literal applies to the value it embeds: a string stands for
  itself, an array is its elements joined by commas (\<open>null\<close> and \<open>undefined\<close> as the
  empty text), an object is the fixed text of \<open>Object.prototype.toString\<close>.
\<close>

fun ToString :: "env \<Rightarrow> jsval \<Rightarrow> string" where
  "ToString E JUndefined = ''undefined''"
| "ToString E JNull = ''null''"
| "ToString E (JBool b) = (if b then ''true'' else ''false'')"
| "ToString E (JNum n) = Number_toString E n"
| "ToString E (JStr s) = s"
| "ToString E (JArr items) =
     join '','' (map (\<lambda>item. if item = JNull \<or> item = JUndefined then [] else ToString E item)
                     items)"
| "ToString E (JObj props) = ''[object Object]''"

section \<open>String interpolation\<close>

text \<open>
  One match of \<open>bindingRegex\<close> at the start of a text: the text matched, the backslashes
  (group 1) and the text of the binding (group 2).
\<close>

definition matchBinding :: "string \<Rightarrow> (string \<times> string \<times> string) option" where
  "matchBinding s =
     (case match_parts bindingRegex s of
        Some [slashes, opening, path, closing] \<Rightarrow>
          Some (slashes @ opening @ path @ closing, slashes, path)
      | _ \<Rightarrow> None)"

lemma concat_parts_text: "concat (parts_text s ls) = take (sum_list ls) s"
proof (induction ls arbitrary: s)
  case Nil
  then show ?case by simp
next
  case (Cons n ns)
  have "take n s @ take (sum_list ns) (drop n s) = take (n + sum_list ns) s"
    by (simp add: take_add)
  with Cons show ?case by simp
qed

lemma matchBinding_le:
  assumes "matchBinding s = Some (bindingStr, slashes, path)"
  shows "length bindingStr \<le> length s"
proof -
  from assms obtain gs where gs: "match_parts bindingRegex s = Some gs" "bindingStr = concat gs"
    by (auto simp: matchBinding_def split: option.splits list.splits)
  then obtain ls where "gs = parts_text s ls"
    by (auto simp: match_parts_def)
  with gs(2) show ?thesis by (simp add: concat_parts_text)
qed

lemma matchBinding_drop:
  assumes "matchBinding s = Some (bindingStr, slashes, path)" and "bindingStr \<noteq> []"
  shows "length s - length bindingStr < length s"
proof -
  from assms(2) have "0 < length bindingStr" by simp
  with matchBinding_le [OF assms(1)] show ?thesis by arith
qed

text \<open>
  \<open>str.replace(bindingRegex, ...)\<close> with the global flag: the matches are searched from
  left to right, each search starting where the last match ended; a position with no
  match keeps its character. The result lists the characters kept and the matches found,
  in order. After an empty match the run-time keeps one character and goes on.
\<close>

function findBindings :: "string \<Rightarrow> (char + string \<times> string \<times> string) list" where
  "findBindings s =
     (case matchBinding s of
        Some (bindingStr, slashes, path) \<Rightarrow>
          Inr (bindingStr, slashes, path) #
            (if bindingStr \<noteq> [] then findBindings (drop (length bindingStr) s)
             else case s of [] \<Rightarrow> [] | c # cs \<Rightarrow> Inl c # findBindings cs)
      | None \<Rightarrow> (case s of [] \<Rightarrow> [] | c # cs \<Rightarrow> Inl c # findBindings cs))"
  by pat_completeness auto
termination
  by (relation "measure length") (auto intro: matchBinding_drop)

declare findBindings.simps [simp del]

text \<open>
  \<^verbatim>\<open>slashes.replace(/\\\\/g, '\\')\<close>: every pair of backslashes becomes one, from left to
  right. \<^verbatim>\<open>replace(/\\$/, '')\<close>: a backslash at the end is removed.
\<close>

fun halveBackslashes :: "string \<Rightarrow> string" where
  "halveBackslashes (a # b # cs) =
     (if a = backslash \<and> b = backslash then backslash # halveBackslashes cs
      else a # halveBackslashes (b # cs))"
| "halveBackslashes cs = cs"

definition removeTrailingBackslash :: "string \<Rightarrow> string" where
  "removeTrailingBackslash s = (if s \<noteq> [] \<and> last s = backslash then butlast s else s)"

text \<open>
  The function given to \<open>replace\<close>. It returns the replacement of one match together with
  the errors it caught and passed to \<open>console.warn\<close>. \<open>bindingValue\<close> starts as
  \<open>undefined\<close> and stays so when the evaluation throws.
\<close>

definition replaceMatch ::
  "env \<Rightarrow> DataContext list \<Rightarrow> string \<Rightarrow> string \<Rightarrow> string \<Rightarrow> (string \<times> error list) option" where
  "replaceMatch E contextHierarchy bindingStr slashes path =
     (let isBindingScaped = (length slashes mod 2 = 1);
          scapedSlashes = halveBackslashes slashes
      in if isBindingScaped
         then Some (removeTrailingBackslash scapedSlashes @ binding_open @ path @ binding_close, [])
         else case evaluateExpression E path contextHierarchy of
                None \<Rightarrow> None
              | Some r \<Rightarrow>
                  (let (bindingValue, warnings) =
                         (case r of Inl error \<Rightarrow> (JUndefined, [error]) | Inr v \<Rightarrow> (v, []));
                       asString = (if typeof bindingValue = ''object''
                                   then JStr (JSON_stringify E bindingValue) else bindingValue)
                   in Some (if bindingValue = JUndefined then bindingStr
                            else scapedSlashes @ ToString E asString, warnings)))"

fun replaceMatches ::
  "env \<Rightarrow> DataContext list \<Rightarrow> (char + string \<times> string \<times> string) list \<Rightarrow>
     (string \<times> error list) option" where
  "replaceMatches E contextHierarchy [] = Some ([], [])"
| "replaceMatches E contextHierarchy (Inl c # rest) =
     (case replaceMatches E contextHierarchy rest of
        None \<Rightarrow> None
      | Some (out, warnings) \<Rightarrow> Some (c # out, warnings))"
| "replaceMatches E contextHierarchy (Inr (bindingStr, slashes, path) # rest) =
     (case replaceMatch E contextHierarchy bindingStr slashes path of
        None \<Rightarrow> None
      | Some (replacement, warnings1) \<Rightarrow>
          (case replaceMatches E contextHierarchy rest of
             None \<Rightarrow> None
           | Some (out, warnings2) \<Rightarrow> Some (replacement @ out, warnings1 @ warnings2)))"

text \<open>
  \<open>replaceBindingsInString\<close> returns a value and the errors it passed to
  \<open>console.warn\<close>; \<open>None\<close> is a call that does not return.
\<close>

definition replaceBindingsInString ::
  "env \<Rightarrow> string \<Rightarrow> DataContext list \<Rightarrow> (jsval \<times> error list) option" where
  "replaceBindingsInString E str contextHierarchy =
     (case match_parts fullBindingRegex str of
        Some [_, expression, _, _] \<Rightarrow>
          (case evaluateExpression E expression contextHierarchy of
             None \<Rightarrow> None
           | Some (Inr bindingValue) \<Rightarrow>
               Some (if bindingValue = JUndefined then JStr str else bindingValue, [])
           | Some (Inl error) \<Rightarrow> Some (JStr str, [error]))
      | _ \<Rightarrow>
          (case replaceMatches E contextHierarchy (findBindings str) of
             None \<Rightarrow> None
           | Some (out, warnings) \<Rightarrow> Some (JStr out, warnings)))"

section \<open>The tree walk\<close>

definition ignore :: "string list" where
  "ignore = [''id'', '' _beagleComponent_'', ''context'']"

text \<open>
  \<open>typeof null\<close> is \<open>object\<close>, so \<open>null\<close> takes the branch of the objects, where
  \<open>Object.keys\<close> raises a \<open>TypeError\<close>. The function given to \<open>reduce\<close> is called for
  the keys in order; each call adds its key to a copy of the result so far. The warnings
  of the strings are not part of the result.
\<close>

definition null_keys_message :: string where
  "null_keys_message = ''Cannot convert undefined or null to object''"

function replaceBindings :: "env \<Rightarrow> jsval \<Rightarrow> DataContext list \<Rightarrow> (error + jsval) option" where
  "replaceBindings E (JStr data) contextHierarchy =
     (case replaceBindingsInString E data contextHierarchy of
        None \<Rightarrow> None
      | Some (v, warnings) \<Rightarrow> Some (Inr v))"
| "replaceBindings E (JArr data) contextHierarchy =
     (case sequence (map (\<lambda>item. replaceBindings E item contextHierarchy) data) of
        None \<Rightarrow> None
      | Some (Inl e) \<Rightarrow> Some (Inl e)
      | Some (Inr items) \<Rightarrow> Some (Inr (JArr items)))"
| "replaceBindings E JNull contextHierarchy = Some (Inl (TypeError null_keys_message))"
| "replaceBindings E (JObj data) contextHierarchy =
     (let hierarchy = getContextHierarchy E (JObj data) contextHierarchy
      in case sequence (map (\<lambda>(key, v). if key \<in> set ignore then Some (Inr v)
                                         else replaceBindings E v hierarchy) data) of
           None \<Rightarrow> None
         | Some (Inl e) \<Rightarrow> Some (Inl e)
         | Some (Inr vs) \<Rightarrow>
             Some (Inr (JObj (foldl (\<lambda>result (key, v). AList.update key v result) []
                                    (zip (map fst data) vs)))))"
| "replaceBindings E JUndefined contextHierarchy = Some (Inr JUndefined)"
| "replaceBindings E (JBool b) contextHierarchy = Some (Inr (JBool b))"
| "replaceBindings E (JNum n) contextHierarchy = Some (Inr (JNum n))"
  by pat_completeness auto
termination
proof (relation "measure (\<lambda>(E, data, h). size data)", goal_cases)
  case 1
  show ?case by simp
next
  case (2 E data contextHierarchy item)
  then have "size item < Suc (size_list size data)"
    by (simp add: less_Suc_eq_le size_list_estimation')
  then show ?case by simp
next
  case (3 E data contextHierarchy hierarchy kv key v)
  then have "(key, v) \<in> set data" by simp
  then have "size_prod (\<lambda>_. 0) size (key, v) \<le> size_list (size_prod (\<lambda>_. 0) size) data"
    by (rule size_list_estimation') simp
  then show ?case by simp
qed

section \<open>Every evaluation returns\<close>

lemma string_pattern_ge2: "n \<in> set (rmatch string_pattern s) \<Longrightarrow> 2 \<le> n"
  by (auto simp: string_pattern_def split: list.splits if_splits)

lemma test_hd:
  assumes "test r s"
  obtains n ns where "rmatch r s = n # ns" "n \<le> length s"
proof -
  from assms obtain n ns where eq: "rmatch r s = n # ns"
    by (cases "rmatch r s") (auto simp: test_def)
  then have "n \<in> set (rmatch r s)" by simp
  from rmatch_le [OF this] eq show ?thesis by (rule that [rotated])
qed

definition run_measure :: "pstate \<Rightarrow> string \<Rightarrow> nat" where
  "run_measure st remainingInput =
     2 * length remainingInput + (if st = isParameterListOver then 1 else 0)"

lemma read_text_decreases:
  assumes "startsWith s x" "x \<noteq> []"
  shows "length (drop (length x) s) < length s"
proof -
  from assms have "length x \<le> length s"
    by (metis startsWith_def length_take min.cobounded2 min.commute)
  with assms(2) show ?thesis by (cases x) auto
qed

lemma read_pattern_decreases:
  assumes "test r s" and "\<And>n. n \<in> set (rmatch r s) \<Longrightarrow> 0 < n"
  shows "length (drop (case rmatch r s of [] \<Rightarrow> 0 | n # _ \<Rightarrow> n) s) < length s"
proof -
  from assms(1) obtain n ns where eq: "rmatch r s = n # ns" and le: "n \<le> length s"
    by (rule test_hd)
  from eq assms(2) have "0 < n" by simp
  with eq le show ?thesis by simp
qed

lemma rmatch_Chr_pos: "n \<in> set (rmatch (Chr p) s) \<Longrightarrow> 0 < n"
  by (auto split: list.splits if_splits)

lemma string_pattern_pos: "n \<in> set (rmatch string_pattern s) \<Longrightarrow> 0 < n"
  using string_pattern_ge2 [of n s] by simp

lemma transition_decreases:
  assumes "t \<in> set (transitions st)" and "matchTransition stack remainingInput t"
  shows "next_state t = final \<or>
         run_measure (next_state t) (drop (matchedLength remainingInput t) remainingInput)
           < run_measure st remainingInput"
proof (cases st)
  case initial
  with assms(1) consider
      (a) "t = \<lparr>read = Some (ReadPattern (Alt (Ch (CHR '','')) Eol)), push = None, pop = None,
                next_state = final\<rparr>"
    | (b) "t = \<lparr>read = Some (ReadText ''(''), push = Some ''('', pop = None,
                next_state = insideParameterList\<rparr>"
    | (c) "t = \<lparr>read = Some (ReadPattern string_pattern), push = None, pop = None,
                next_state = initial\<rparr>"
    | (d) "t = \<lparr>read = Some (ReadPattern (Chr (\<lambda>c. c \<noteq> CHR '')''))), push = None, pop = None,
                next_state = initial\<rparr>"
    by auto
  then show ?thesis
  proof cases
    case a
    then show ?thesis by simp
  next
    case b
    with assms(2) have "startsWith remainingInput ''(''"
      by (simp add: matchTransition_def prefixMatches_def)
    from read_text_decreases [OF this] b initial show ?thesis
      by (simp add: run_measure_def matchedLength_def)
  next
    case c
    with assms(2) have "test string_pattern remainingInput"
      by (simp add: matchTransition_def prefixMatches_def)
    from read_pattern_decreases [OF this string_pattern_pos] c initial show ?thesis
      by (simp add: run_measure_def matchedLength_def)
  next
    case d
    with assms(2) have "test (Chr (\<lambda>c. c \<noteq> CHR '')'')) remainingInput"
      by (simp add: matchTransition_def prefixMatches_def)
    from read_pattern_decreases [OF this rmatch_Chr_pos] d initial show ?thesis
      by (simp add: run_measure_def matchedLength_def)
  qed
next
  case final
  with assms(1) show ?thesis by simp
next
  case insideParameterList
  with assms(1) consider
      (a) "t = \<lparr>read = Some (ReadText ''(''), push = Some ''('', pop = None,
                next_state = insideParameterList\<rparr>"
    | (b) "t = \<lparr>read = Some (ReadText '')''), push = None, pop = Some (PopSymbol ''(''),
                next_state = isParameterListOver\<rparr>"
    | (c) "t = \<lparr>read = Some (ReadPattern string_pattern), push = None, pop = None,
                next_state = insideParameterList\<rparr>"
    | (d) "t = \<lparr>read = Some (ReadPattern (Chr is_dot)), push = None, pop = None,
                next_state = insideParameterList\<rparr>"
    by auto
  then show ?thesis
  proof cases
    case a
    with assms(2) have "startsWith remainingInput ''(''"
      by (simp add: matchTransition_def prefixMatches_def)
    from read_text_decreases [OF this] a insideParameterList show ?thesis
      by (simp add: run_measure_def matchedLength_def)
  next
    case b
    with assms(2) have "startsWith remainingInput '')''"
      by (simp add: matchTransition_def prefixMatches_def)
    from read_text_decreases [OF this] b insideParameterList show ?thesis
      by (simp add: run_measure_def matchedLength_def)
  next
    case c
    with assms(2) have "test string_pattern remainingInput"
      by (simp add: matchTransition_def prefixMatches_def)
    from read_pattern_decreases [OF this string_pattern_pos] c insideParameterList show ?thesis
      by (simp add: run_measure_def matchedLength_def)
  next
    case d
    with assms(2) have "test (Chr is_dot) remainingInput"
      by (simp add: matchTransition_def prefixMatches_def)
    from read_pattern_decreases [OF this rmatch_Chr_pos] d insideParameterList show ?thesis
      by (simp add: run_measure_def matchedLength_def)
  qed
next
  case isParameterListOver
  with assms(1) have "read t = None" "next_state t \<noteq> isParameterListOver"
    by auto
  with isParameterListOver show ?thesis
    by (simp add: run_measure_def matchedLength_def)
qed

lemma dpa_run_total: "\<exists>r. dpa_run dpa st stack remainingInput = Some r"
proof (induction "run_measure st remainingInput" arbitrary: st stack remainingInput
       rule: less_induct)
  case less
  show ?case
  proof (cases "st = final")
    case True
    then show ?thesis by (subst dpa_run.simps) (simp add: dpa_def)
  next
    case False
    show ?thesis
    proof (cases "find (matchTransition stack remainingInput) (transitions st)")
      case None
      with False show ?thesis by (subst dpa_run.simps) (simp add: dpa_def)
    next
      case (Some t)
      then have t: "t \<in> set (transitions st)" "matchTransition stack remainingInput t"
        by (auto simp: find_Some_iff)
      have "\<exists>r. dpa_run dpa (next_state t) (updateStack stack t)
                  (drop (matchedLength remainingInput t) remainingInput) = Some r"
      proof (cases "next_state t = final")
        case True
        then show ?thesis by (subst dpa_run.simps) (simp add: dpa_def)
      next
        case False
        with transition_decreases [OF t] show ?thesis by (intro less.hyps) simp
      qed
      with False Some show ?thesis by (subst dpa_run.simps) (simp add: dpa_def)
    qed
  qed
qed

lemma dpa_match_total: "\<exists>r. dpa_match dpa input = Some r"
proof -
  from dpa_run_total obtain r where "dpa_run dpa initial [] input = Some r" by blast
  then show ?thesis by (cases r) (simp_all add: dpa_match_def dpa_def)
qed

lemma parseParameters_loop_total:
  "\<exists>r. parseParameters_loop ps position parameters = Some r"
proof (induction ps position parameters rule: parseParameters_loop.induct)
  case (1 ps position parameters)
  from dpa_match_total obtain r where r: "dpa_match dpa (drop position ps) = Some r" by blast
  show ?case
  proof (cases "position < length ps")
    case False
    then show ?thesis by simp
  next
    case True
    show ?thesis
    proof (cases r)
      case None
      with r True show ?thesis by simp
    next
      case (Some mtch)
      show ?thesis
      proof (cases "mtch = []")
        case True
        with r Some \<open>position < length ps\<close> show ?thesis by simp
      next
        case False
        from "1.IH" [OF True _ refl False] r Some
        obtain r' where "parseParameters_loop ps (position + length mtch)
             (parameters @ [trim (removeTrailingComma mtch)]) = Some r'"
          by auto
        with r Some True False show ?thesis by simp
      qed
    qed
  qed
qed

lemma parseParameters_total: "\<exists>r. parseParameters ps = Some r"
  unfolding parseParameters_def by (rule parseParameters_loop_total)

lemma sequence_total:
  "(\<forall>x \<in> set xs. \<exists>r. x = Some r) \<Longrightarrow> \<exists>r. sequence xs = Some r"
proof (induction xs)
  case Nil
  then show ?case by simp
next
  case (Cons x xs)
  then obtain r rs where "x = Some r" "sequence xs = Some rs" by auto
  then show ?case by (cases r; cases rs) simp_all
qed

lemma evaluateExpression_total: "\<exists>r. evaluateExpression E expression contextHierarchy = Some r"
  and getOperationValue_total: "\<exists>r. getOperationValue E operation contextHierarchy = Some r"
proof (induction E expression contextHierarchy and E operation contextHierarchy
       rule: evaluateExpression_getOperationValue.induct)
  case (1 E expression contextHierarchy)
  then show ?case by (subst evaluateExpression.simps) (auto simp: Let_def)
next
  case (2 E operation contextHierarchy)
  show ?case
  proof (cases "\<exists>operationName a paramString b c.
           match_parts operationRegex operation = Some [operationName, a, paramString, b, c]")
    case False
    then show ?thesis
      by (subst getOperationValue.simps) (auto split: option.splits list.splits)
  next
    case True
    then obtain operationName a paramString b c where
      m: "match_parts operationRegex operation = Some [operationName, a, paramString, b, c]"
      by blast
    show ?thesis
    proof (cases "operations E operationName")
      case None
      with m show ?thesis by (subst getOperationValue.simps) simp
    next
      case (Some f)
      from parseParameters_total obtain r where r: "parseParameters paramString = Some r" by blast
      show ?thesis
      proof (cases r)
        case (Inl e)
        with m Some r show ?thesis by (subst getOperationValue.simps) simp
      next
        case (Inr params)
        have "\<forall>x \<in> set (map (\<lambda>param. evaluateExpression E param contextHierarchy) params).
                \<exists>r. x = Some r"
          using "2.IH" [OF m refl refl refl refl refl refl Some r Inr] by auto
        from sequence_total [OF this] obtain rs where
          "sequence (map (\<lambda>param. evaluateExpression E param contextHierarchy) params) = Some rs"
          by blast
        with m Some r Inr show ?thesis
          by (subst getOperationValue.simps) (cases rs; simp)
      qed
    qed
  qed
qed

section \<open>Facts about matching\<close>

lemma rmatch_Seq_iff:
  "n \<in> set (rmatch (Seq a b) s) \<longleftrightarrow>
     (\<exists>i j. i \<in> set (rmatch a s) \<and> j \<in> set (rmatch b (drop i s)) \<and> n = i + j)"
  by auto

lemma map_Suc_rev_upt: "map Suc (rev [0..<n]) @ [0] = rev [0..<Suc n]"
proof -
  have "rev [0..<Suc n] = rev (0 # [Suc 0..<Suc n])"
    by (simp add: upt_conv_Cons del: upt_Suc)
  also have "\<dots> = rev (map Suc [0..<n]) @ [0]"
    by (simp add: map_Suc_upt del: upt_Suc)
  finally show ?thesis by (simp add: rev_map)
qed

text \<open>A greedy run of one class offers every length from the longest down to none.\<close>

lemma rmatch_Star_Chr: "rmatch (Star (Chr p)) s = rev [0..<Suc (length (takeWhile p s))]"
proof (induction s)
  case Nil
  show ?case by (subst rmatch.simps(6)) simp
next
  case (Cons c cs)
  show ?case
  proof (cases "p c")
    case False
    then show ?thesis by (subst rmatch.simps(6)) simp
  next
    case True
    have "rmatch (Star (Chr p)) (c # cs) = map Suc (rmatch (Star (Chr p)) cs) @ [0]"
      using True by (subst rmatch.simps(6)) simp
    also have "\<dots> = rev [0..<Suc (Suc (length (takeWhile p cs)))]"
      unfolding Cons.IH by (rule map_Suc_rev_upt)
    finally show ?thesis using True by simp
  qed
qed

lemma rmatch_Plus_Chr:
  "rmatch (Plus (Chr p)) s =
     (case s of [] \<Rightarrow> [] | c # cs \<Rightarrow>
        if p c then map Suc (rev [0..<Suc (length (takeWhile p cs))]) else [])"
  by (cases s) (simp_all add: Plus_def rmatch_Star_Chr del: upt_Suc)

text \<open>The first way a sequence of parts matches, candidate by candidate.\<close>

definition exec_from :: "nat list \<Rightarrow> regex list \<Rightarrow> string \<Rightarrow> nat list option" where
  "exec_from candidates rs s =
     (case concat (map (\<lambda>i. map (\<lambda>ls. i # ls) (rmatch_seq rs (drop i s))) candidates) of
        [] \<Rightarrow> None
      | ls # _ \<Rightarrow> Some ls)"

lemma exec_Nil [simp]: "exec [] s = Some []"
  by (simp add: exec_def)

lemma exec_Cons: "exec (r # rs) s = exec_from (rmatch r s) rs s"
  by (simp add: exec_def exec_from_def)

lemma exec_from_Nil [simp]: "exec_from [] rs s = None"
  by (simp add: exec_from_def)

lemma exec_from_Cons:
  "exec_from (i # candidates) rs s =
     (case exec rs (drop i s) of Some ls \<Rightarrow> Some (i # ls) | None \<Rightarrow> exec_from candidates rs s)"
  by (cases "rmatch_seq rs (drop i s)") (simp_all add: exec_def exec_from_def)

lemma exec_None_iff: "exec parts s = None \<longleftrightarrow> rmatch_seq parts s = []"
  by (simp add: exec_def split: list.splits)

lemma exec_Some_if_unique:
  assumes "ls \<in> set (rmatch_seq parts s)"
    and "\<And>ls'. ls' \<in> set (rmatch_seq parts s) \<Longrightarrow> ls' = ls"
  shows "exec parts s = Some ls"
proof (cases "rmatch_seq parts s")
  case Nil
  with assms(1) show ?thesis by simp
next
  case (Cons x xs)
  then have "x \<in> set (rmatch_seq parts s)" by simp
  from assms(2) [OF this] Cons show ?thesis by (simp add: exec_def)
qed


lemma not_word_paren [simp]: "\<not> is_word (CHR ''('')" "\<not> is_digit (CHR ''('')"
  by (simp_all add: is_word_def is_digit_def)

lemma operationRegex_rest:
  "exec [Lit ''('', Star (Chr is_dot), Lit '')'', Eol] ''()'' = Some [1, 0, 1, 0]"
  by code_simp

lemma operationRegex_empty_call:
  assumes "name \<noteq> []" and "\<forall>c \<in> set name. is_word c"
  shows "match_parts operationRegex (name @ ''()'') = Some [name, ''('', [], '')'', []]"
proof -
  from assms(1) obtain c cs where name: "name = c # cs" by (cases name) auto
  let ?wd = "\<lambda>c. is_word c \<or> is_digit c \<or> c = CHR ''_''"
  from assms(2) name have c: "is_word c" and cs: "\<And>x. x \<in> set cs \<Longrightarrow> ?wd x" by auto
  have tw: "takeWhile ?wd (cs @ ''()'') = cs"
    using cs by (simp add: takeWhile_append2)
  have "rmatch (Seq (Chr is_word) (Star (Chr ?wd))) (name @ ''()'') =
          map Suc (rev [0..<Suc (length cs)])"
    using c by (simp add: name rmatch_Star_Chr tw del: upt_Suc)
  also have "\<dots> = Suc (length cs) # map Suc (rev [0..<length cs])"
    by simp
  finally have r1: "rmatch (Seq (Chr is_word) (Star (Chr ?wd))) (name @ ''()'') =
      Suc (length cs) # map Suc (rev [0..<length cs])" .
  have dr: "drop (Suc (length cs)) (name @ ''()'') = ''()''"
    by (simp add: name)
  have "exec operationRegex (name @ ''()'') =
          exec_from (rmatch (Seq (Chr is_word) (Star (Chr ?wd))) (name @ ''()''))
            [Lit ''('', Star (Chr is_dot), Lit '')'', Eol] (name @ ''()'')"
    by (simp only: operationRegex_def exec_Cons)
  also have "\<dots> = Some [Suc (length cs), 1, 0, 1, 0]"
    by (simp only: r1 exec_from_Cons dr operationRegex_rest option.case)
  finally have "exec operationRegex (name @ ''()'') = Some [length name, 1, 0, 1, 0]"
    by (simp add: name)
  then show ?thesis by (simp add: match_parts_def)
qed

text \<open>The characters a pattern can consume.\<close>

fun allowed :: "regex \<Rightarrow> char \<Rightarrow> bool" where
  "allowed (Chr p) c = p c"
| "allowed Eps c = False"
| "allowed Eol c = False"
| "allowed (Seq a b) c = (allowed a c \<or> allowed b c)"
| "allowed (Alt a b) c = (allowed a c \<or> allowed b c)"
| "allowed (Star a) c = allowed a c"

lemma rmatch_allowed:
  "n \<in> set (rmatch r s) \<Longrightarrow> c \<in> set (take n s) \<Longrightarrow> allowed r c"
proof (induction r s arbitrary: n rule: rmatch.induct)
  case (1 p s)
  then show ?case by (cases s) (auto split: if_splits)
next
  case (4 a b s)
  from "4.prems"(1) obtain i j where ij: "i \<in> set (rmatch a s)"
    "j \<in> set (rmatch b (drop i s))" "n = i + j"
    unfolding rmatch_Seq_iff by blast
  from "4.prems"(2) ij(3) have "c \<in> set (take i s) \<or> c \<in> set (take j (drop i s))"
    by (auto simp: take_add)
  with "4.IH"(1) [OF ij(1)] "4.IH"(2) [OF ij(1) ij(2)] show ?case by auto
next
  case (6 a s)
  show ?case
  proof (cases "n = 0")
    case True
    with "6.prems"(2) show ?thesis by simp
  next
    case False
    with "6.prems"(1) obtain i j where ij: "i \<in> set (rmatch a s)" "0 < i" "i \<le> length s"
      "j \<in> set (rmatch (Star a) (drop i s))" "n = i + j"
      unfolding rmatch_Star_iff [of n a s] by blast
    from "6.prems"(2) ij(5) have "c \<in> set (take i s) \<or> c \<in> set (take j (drop i s))"
      by (auto simp: take_add)
    with "6.IH"(1) [OF ij(1)] "6.IH"(2) [OF ij(1) _ ij(4)] ij(2,3) show ?thesis by auto
  qed
qed auto

text \<open>A pattern that ends with the end of the input consumes all of it.\<close>

lemma rmatch_Seq_Eol: "n \<in> set (rmatch (Seq a Eol) s) \<Longrightarrow> n = length s"
proof -
  assume "n \<in> set (rmatch (Seq a Eol) s)"
  then obtain i where i: "i \<in> set (rmatch a s)" "drop i s = []" "n = i"
    unfolding rmatch_Seq_iff by (auto split: if_splits)
  from rmatch_le [OF i(1)] i(2,3) show ?thesis by simp
qed

lemma rmatch_Seq_full:
  assumes "n \<in> set (rmatch (Seq a b) s)"
    and "\<And>t m. m \<in> set (rmatch b t) \<Longrightarrow> m = length t"
  shows "n = length s"
proof -
  from assms(1) obtain i j where ij: "i \<in> set (rmatch a s)"
    "j \<in> set (rmatch b (drop i s))" "n = i + j"
    unfolding rmatch_Seq_iff by blast
  from assms(2) [OF ij(2)] rmatch_le [OF ij(1)] ij(3) show ?thesis by simp
qed

lemma pathRegex_full: "n \<in> set (rmatch pathRegex path) \<Longrightarrow> n = length path"
  unfolding pathRegex_def
  by (erule rmatch_Seq_full, erule rmatch_Seq_full, erule rmatch_Seq_Eol)

lemma word_not_delimiter:
  "is_word c \<Longrightarrow> c \<noteq> CHR ''.'' \<and> c \<noteq> CHR ''['' \<and> c \<noteq> CHR '']''"
  by (auto simp: is_word_def Let_def)

lemma digit_is_word: "is_digit c \<Longrightarrow> is_word c"
  by (auto simp: is_word_def is_digit_def Let_def)

lemma underscore_is_word: "is_word (CHR ''_'')"
  by (simp add: is_word_def)

lemma pathRegex_chars:
  assumes "test pathRegex path" and "c \<in> set path"
  shows "is_word c \<or> c = CHR ''.'' \<or> c = CHR ''['' \<or> c = CHR '']''"
proof -
  from assms(1) obtain n where n: "n \<in> set (rmatch pathRegex path)"
    by (cases "rmatch pathRegex path") (auto simp: test_def)
  from pathRegex_full [OF n] assms(2) have "c \<in> set (take n path)" by simp
  from rmatch_allowed [OF n this] show ?thesis
    by (auto simp: pathRegex_def path_name_def path_index_def Plus_def Ch_def
             dest: digit_is_word intro: underscore_is_word)
qed

lemma pathRegex_nonempty:
  assumes "test pathRegex path"
  shows "path \<noteq> [] \<and> is_word (hd path)"
proof -
  from assms obtain n where n: "n \<in> set (rmatch pathRegex path)"
    by (cases "rmatch pathRegex path") (auto simp: test_def)
  then obtain i where "i \<in> set (rmatch path_name path)"
    unfolding pathRegex_def rmatch_Seq_iff by blast
  then show ?thesis
    by (cases path)
       (auto simp: path_name_def rmatch_Plus_Chr split: if_splits
             dest: digit_is_word intro: underscore_is_word)
qed

abbreviation (input) not_delimiter :: "char \<Rightarrow> bool" where
  "not_delimiter \<equiv> \<lambda>c. c \<noteq> CHR ''.'' \<and> c \<noteq> CHR ''['' \<and> c \<noteq> CHR '']''"

lemma pathRegex_leading:
  assumes "test pathRegex path"
  shows "takeWhile not_delimiter path = takeWhile is_word path"
proof (rule takeWhile_cong [OF refl])
  fix c assume "c \<in> set path"
  from pathRegex_chars [OF assms this] word_not_delimiter [of c]
  show "not_delimiter c = is_word c" by auto
qed

lemma exec_Star_Chr: "exec [Star (Chr p)] t = Some [length (takeWhile p t)]"
  by (simp add: exec_Cons rmatch_Star_Chr exec_from_Cons)

lemma pathSplit_tail:
  "\<exists>j m. exec [Opt (Ch (CHR ''.'')), Star (Chr is_dot)] t = Some [j, m]"
proof -
  have "rmatch (Opt (Ch (CHR ''.''))) t \<noteq> []"
    by (simp add: Opt_def)
  then obtain j js where "rmatch (Opt (Ch (CHR ''.''))) t = j # js"
    by (cases "rmatch (Opt (Ch (CHR ''.''))) t") auto
  then show ?thesis
    by (simp add: exec_Cons [of "Opt (Ch (CHR ''.''))"] exec_from_Cons exec_Star_Chr)
qed

lemma pathSplit_contextId:
  assumes "path \<noteq> []" and "not_delimiter (hd path)"
  shows "\<exists>dot contextPath. match_parts pathSplitRegex path =
           Some [takeWhile not_delimiter path, dot, contextPath]"
proof -
  from assms obtain c cs where path: "path = c # cs" and c: "not_delimiter c"
    by (cases path) auto
  let ?k = "length (takeWhile not_delimiter cs)"
  have r1: "rmatch (Plus (Chr not_delimiter)) path = Suc ?k # map Suc (rev [0..<?k])"
    using c by (simp add: rmatch_Plus_Chr path)
  from pathSplit_tail obtain j m where
    tail: "exec [Opt (Ch (CHR ''.'')), Star (Chr is_dot)] (drop (Suc ?k) path) = Some [j, m]"
    by blast
  have "exec pathSplitRegex path =
          exec_from (rmatch (Plus (Chr not_delimiter)) path)
            [Opt (Ch (CHR ''.'')), Star (Chr is_dot)] path"
    by (simp only: pathSplitRegex_def exec_Cons)
  also have "\<dots> = Some [Suc ?k, j, m]"
    by (simp only: r1 exec_from_Cons tail option.case)
  finally have "exec pathSplitRegex path = Some [Suc ?k, j, m]" .
  moreover have "take (Suc ?k) path = takeWhile not_delimiter path"
    using c by (simp add: path takeWhile_eq_take [symmetric])
  ultimately show ?thesis by (simp add: match_parts_def)
qed

lemma getContextInHierarchy_None:
  "\<forall>c \<in> set contextHierarchy. ctx_id c \<noteq> contextId \<Longrightarrow>
   getContextInHierarchy contextHierarchy contextId = None"
  by (simp add: getContextInHierarchy_def find_None_iff)

text \<open>Patterns that do not look at the end of the input match as well when text follows.\<close>

fun eol_free :: "regex \<Rightarrow> bool" where
  "eol_free (Chr p) = True"
| "eol_free Eps = True"
| "eol_free Eol = False"
| "eol_free (Seq a b) = (eol_free a \<and> eol_free b)"
| "eol_free (Alt a b) = (eol_free a \<and> eol_free b)"
| "eol_free (Star a) = eol_free a"

lemma rmatch_append:
  "eol_free r \<Longrightarrow> n \<in> set (rmatch r s) \<Longrightarrow> n \<in> set (rmatch r (s @ t))"
proof (induction r s arbitrary: n rule: rmatch.induct)
  case (1 p s)
  then show ?case by (cases s) (auto split: if_splits)
next
  case (4 a b s)
  from "4.prems"(2) obtain i j where ij: "i \<in> set (rmatch a s)"
    "j \<in> set (rmatch b (drop i s))" "n = i + j"
    unfolding rmatch_Seq_iff by blast
  from "4.prems"(1) have ef: "eol_free a" "eol_free b" by simp_all
  from "4.IH"(1) [OF ef(1) ij(1)] have i': "i \<in> set (rmatch a (s @ t))" .
  from "4.IH"(2) [OF ij(1) ef(2) ij(2)] rmatch_le [OF ij(1)]
  have "j \<in> set (rmatch b (drop i (s @ t)))" by simp
  with i' ij(3) show ?case unfolding rmatch_Seq_iff by blast
next
  case (6 a s)
  show ?case
  proof (cases "n = 0")
    case True
    then show ?thesis unfolding rmatch_Star_iff [of n a "s @ t"] by simp
  next
    case False
    with "6.prems"(2) obtain i j where ij: "i \<in> set (rmatch a s)" "0 < i" "i \<le> length s"
      "j \<in> set (rmatch (Star a) (drop i s))" "n = i + j"
      unfolding rmatch_Star_iff [of n a s] by blast
    from "6.prems"(1) have ef: "eol_free a" by simp
    from "6.IH"(1) [OF ef ij(1)] have i': "i \<in> set (rmatch a (s @ t))" .
    from "6.IH"(2) [OF ij(1) _ "6.prems"(1) ij(4)] ij(2,3)
    have "j \<in> set (rmatch (Star a) (drop i (s @ t)))" by simp
    with i' ij(2,3,5) show ?thesis unfolding rmatch_Star_iff [of n a "s @ t"] by auto
  qed
qed auto

lemma eol_free_binding_body: "eol_free binding_body"
  by (simp add: binding_body_def quoted_string_def Ch_def)

lemma rmatch_Eol_iff: "n \<in> set (rmatch Eol s) \<longleftrightarrow> n = 0 \<and> s = []"
  by simp

lemma rmatch_Lit_iff: "n \<in> set (rmatch (Lit x) s) \<longleftrightarrow> n = length x \<and> take (length x) s = x"
  by (auto simp: rmatch_Lit startsWith_def)

lemma fullBinding_ways:
  "ls \<in> set (rmatch_seq fullBindingRegex str) \<longleftrightarrow>
     (\<exists>j. ls = [2, j, 1, 0] \<and> take 2 str = binding_open \<and>
          j \<in> set (rmatch binding_body (drop 2 str)) \<and> drop (2 + j) str = binding_close)"
proof -
  have raw: "ls \<in> set (rmatch_seq fullBindingRegex str) \<longleftrightarrow>
     (\<exists>j. ls = [2, j, 1, 0] \<and> take 2 str = binding_open \<and>
          j \<in> set (rmatch binding_body (drop 2 str)) \<and>
          take 1 (drop j (drop 2 str)) = binding_close \<and> drop 1 (drop j (drop 2 str)) = [])"
    unfolding fullBindingRegex_def rmatch_seq_Cons_iff rmatch_Lit_iff rmatch_Eol_iff
    by (auto simp: numeral_2_eq_2 simp del: Lit.simps)
  have conv: "(take 1 (drop j (drop 2 str)) = binding_close \<and>
               drop 1 (drop j (drop 2 str)) = []) \<longleftrightarrow> drop (2 + j) str = binding_close" for j
  proof -
    have "drop j (drop 2 str) = drop (2 + j) str" by (simp add: add.commute)
    moreover have "take 1 xs = binding_close \<and> drop 1 xs = [] \<longleftrightarrow> xs = binding_close" for xs
      by (cases xs) auto
    ultimately show ?thesis by (simp only:)
  qed
  show ?thesis unfolding raw conv ..
qed

lemma fullBinding_match:
  assumes "length expr \<in> set (rmatch binding_body expr)"
  shows "match_parts fullBindingRegex (binding_open @ expr @ binding_close) =
           Some [binding_open, expr, binding_close, []]"
proof -
  let ?str = "binding_open @ expr @ binding_close"
  from rmatch_append [OF eol_free_binding_body assms, of binding_close]
  have "[2, length expr, 1, 0] \<in> set (rmatch_seq fullBindingRegex ?str)"
    unfolding fullBinding_ways by simp
  moreover have "ls' = [2, length expr, 1, 0]"
    if "ls' \<in> set (rmatch_seq fullBindingRegex ?str)" for ls'
  proof -
    from that obtain j where j: "ls' = [2, j, 1, 0]" "drop (2 + j) ?str = binding_close"
      unfolding fullBinding_ways by blast
    from j(2) have "length (drop (2 + j) ?str) = 1" by simp
    then have "j = length expr" by simp
    with j(1) show ?thesis by simp
  qed
  ultimately have "exec fullBindingRegex ?str = Some [2, length expr, 1, 0]"
    by (rule exec_Some_if_unique)
  then show ?thesis by (simp add: match_parts_def)
qed

lemma fullBinding_shape:
  assumes "match_parts fullBindingRegex str = Some gs"
  shows "\<exists>expr. str = binding_open @ expr @ binding_close \<and>
                 gs = [binding_open, expr, binding_close, []]"
proof -
  from assms obtain ls where ls: "exec fullBindingRegex str = Some ls" "gs = parts_text str ls"
    by (auto simp: match_parts_def)
  from exec_SomeD [OF ls(1)] obtain j where j: "ls = [2, j, 1, 0]"
    "take 2 str = binding_open" "drop (2 + j) str = binding_close"
    unfolding fullBinding_ways by blast
  have "str = take 2 str @ take j (drop 2 str) @ drop (2 + j) str"
    by (metis append_take_drop_id drop_drop add.commute)
  with j ls(2) show ?thesis
    by (intro exI [of _ "take j (drop 2 str)"]) (auto simp: add.commute)
qed

lemma replaceMatch_total:
  "\<exists>r. replaceMatch E contextHierarchy bindingStr slashes path = Some r"
proof -
  from evaluateExpression_total obtain r where
    "evaluateExpression E path contextHierarchy = Some r" by blast
  then show ?thesis
    by (cases r) (simp_all add: replaceMatch_def Let_def)
qed

lemma replaceMatches_total: "\<exists>r. replaceMatches E contextHierarchy pieces = Some r"
proof (induction pieces)
  case Nil
  show ?case by simp
next
  case (Cons piece rest)
  then obtain out warnings where
    rest: "replaceMatches E contextHierarchy rest = Some (out, warnings)" by fastforce
  show ?case
  proof (cases piece)
    case (Inl c)
    with rest show ?thesis by simp
  next
    case (Inr m)
    obtain bindingStr slashes path where m: "m = (bindingStr, slashes, path)"
      by (cases m) auto
    from replaceMatch_total obtain replacement warnings1 where
      "replaceMatch E contextHierarchy bindingStr slashes path = Some (replacement, warnings1)"
      by fastforce
    with rest Inr m show ?thesis by simp
  qed
qed

lemma replaceBindingsInString_total:
  "\<exists>v warnings. replaceBindingsInString E str contextHierarchy = Some (v, warnings)"
proof (cases "match_parts fullBindingRegex str")
  case None
  from replaceMatches_total obtain out warnings where
    "replaceMatches E contextHierarchy (findBindings str) = Some (out, warnings)" by fastforce
  with None show ?thesis by (simp add: replaceBindingsInString_def)
next
  case (Some gs)
  from fullBinding_shape [OF Some] obtain expr where
    gs: "gs = [binding_open, expr, binding_close, []]" by blast
  from evaluateExpression_total obtain r where
    "evaluateExpression E expr contextHierarchy = Some r" by blast
  with Some gs show ?thesis
    by (cases r) (simp_all add: replaceBindingsInString_def)
qed





section \<open>Facts about the tree walk\<close>





lemma replaceBindings_total: "\<exists>r. replaceBindings E data contextHierarchy = Some r"
proof (induction E data contextHierarchy rule: replaceBindings.induct)
  case (1 E data contextHierarchy)
  from replaceBindingsInString_total obtain v warnings where
    "replaceBindingsInString E data contextHierarchy = Some (v, warnings)" by blast
  then show ?case by simp
next
  case (2 E data contextHierarchy)
  then have "\<forall>x \<in> set (map (\<lambda>item. replaceBindings E item contextHierarchy) data). \<exists>r. x = Some r"
    by auto
  from sequence_total [OF this] obtain rs where
    "sequence (map (\<lambda>item. replaceBindings E item contextHierarchy) data) = Some rs" by blast
  then show ?case by (cases rs) simp_all
next
  case (4 E data contextHierarchy)
  let ?f = "\<lambda>(key, v). if key \<in> set ignore then Some (Inr v)
             else replaceBindings E v (getContextHierarchy E (JObj data) contextHierarchy)"
  from "4.IH" have "\<forall>x \<in> set (map ?f data). \<exists>r. x = Some r"
    by (auto split: if_splits)
  from sequence_total [OF this] obtain rs where "sequence (map ?f data) = Some rs" by blast
  then show ?case by (cases rs) (simp_all add: Let_def)
qed simp_all

section \<open>Facts about the matches inside a string\<close>

lemma bindingRegex_ways:
  assumes "ls \<in> set (rmatch_seq bindingRegex s)"
  obtains i j where "ls = [i, 2, j, 1]" "i \<in> set (rmatch (Star (Ch backslash)) s)"
    "take 2 (drop i s) = binding_open" "take 1 (drop j (drop 2 (drop i s))) = binding_close"
  using assms
  unfolding bindingRegex_def rmatch_seq_Cons_iff rmatch_Lit_iff
  by (auto simp: numeral_2_eq_2 simp del: Lit.simps)

lemma matchBinding_shape:
  assumes "matchBinding s = Some (bindingStr, slashes, path)"
  shows "bindingStr = slashes @ binding_open @ path @ binding_close \<and>
         slashes = replicate (length slashes) backslash"
proof -
  from assms obtain gs where gs: "match_parts bindingRegex s = Some gs"
    by (auto simp: matchBinding_def split: option.splits)
  then obtain ls where ls: "exec bindingRegex s = Some ls" "gs = parts_text s ls"
    by (auto simp: match_parts_def)
  from exec_SomeD [OF ls(1)] obtain i j where ij: "ls = [i, 2, j, 1]"
    "i \<in> set (rmatch (Star (Ch backslash)) s)"
    "take 2 (drop i s) = binding_open" "take 1 (drop j (drop 2 (drop i s))) = binding_close"
    by (rule bindingRegex_ways)
  from ls(2) ij(1,3,4) have gs': "gs = [take i s, binding_open, take j (drop 2 (drop i s)),
      binding_close]"
    by simp
  with assms gs have eqs: "slashes = take i s" "path = take j (drop 2 (drop i s))"
    "bindingStr = slashes @ binding_open @ path @ binding_close"
    by (auto simp: matchBinding_def)
  have "c = backslash" if "c \<in> set slashes" for c
    using rmatch_allowed [OF ij(2), of c] that eqs(1) by (simp add: Ch_def)
  then have "slashes = replicate (length slashes) backslash"
    by (simp add: replicate_length_same)
  with eqs(3) show ?thesis by simp
qed

lemma findBindings_matches:
  "Inr m \<in> set (findBindings str) \<Longrightarrow> \<exists>s. matchBinding s = Some m"
proof (induction str rule: findBindings.induct)
  case (1 s)
  show ?case
  proof (cases "matchBinding s")
    case None
    with "1.prems" have "\<exists>c cs. s = c # cs \<and> Inr m \<in> set (findBindings cs)"
      by (subst (asm) findBindings.simps) (auto split: list.splits)
    with None "1.IH" show ?thesis by blast
  next
    case (Some m')
    obtain bindingStr slashes path where m': "m' = (bindingStr, slashes, path)"
      by (cases m') auto
    from "1.prems" Some m' consider "m = m'"
      | "bindingStr \<noteq> []" "Inr m \<in> set (findBindings (drop (length bindingStr) s))"
      | c cs where "bindingStr = []" "s = c # cs" "Inr m \<in> set (findBindings cs)"
      by (subst (asm) findBindings.simps) (auto split: list.splits if_splits)
    then show ?thesis
    proof cases
      case 1
      with Some show ?thesis by blast
    next
      case 2
      with "1.IH" Some m' show ?thesis by blast
    next
      case 3
      from 3(1) have empty: "\<not> bindingStr \<noteq> []" by simp
      from "1.IH"(3) [OF Some m' [symmetric] refl empty 3(2) 3(3)] show ?thesis .
    qed
  qed
qed



section \<open>Patterns with one way to match\<close>














section \<open>Where the replacement finds a binding\<close>















section \<open>Examples\<close>

text \<open>
  The environment of the examples: a registry with the one operation \<open>sum\<close>, addition; a
  provider that adds no context; a \<open>get\<close> that reads one property of an object.
\<close>

definition sum_operation :: "jsval list \<Rightarrow> error + jsval" where
  "sum_operation args =
     Inr (JNum (foldl (\<lambda>total v. case v of JNum n \<Rightarrow> total + n | _ \<Rightarrow> total) 0 args))"

definition property_get :: "jsval \<Rightarrow> string \<Rightarrow> jsval" where
  "property_get v name =
     (case v of
        JObj props \<Rightarrow> (case map_of props name of Some x \<Rightarrow> x | None \<Rightarrow> JUndefined)
      | _ \<Rightarrow> JUndefined)"

definition example_env :: env where
  "example_env =
     \<lparr>operations = [''sum'' \<mapsto> sum_operation],
      getContextHierarchy = (\<lambda>node contextHierarchy. contextHierarchy),
      lodash_get = property_get,
      JSON_stringify = (\<lambda>v. ''{}''),
      Number_toString = (\<lambda>n. ''0'')\<rparr>"

definition example_hierarchy :: "DataContext list" where
  "example_hierarchy = [\<lparr>ctx_id = ''user'', ctx_value = JObj [(''name'', JStr ''Ana'')]\<rparr>]"

section \<open>The claims\<close>

text \<open>
  The example of the specification: the parameters of
  \<^verbatim>\<open>f('a,b', g(1,2), 'x\'y')\<close> are split into three.
\<close>

lemma parseParameters_example:
  "parseParameters ([apostrophe] @ ''a,b'' @ [apostrophe] @ '', g(1,2), '' @
                    [apostrophe] @ ''x'' @ [backslash, apostrophe] @ ''y'' @ [apostrophe]) =
   Some (Inr [[apostrophe] @ ''a,b'' @ [apostrophe], ''g(1,2)'',
              [apostrophe] @ ''x'' @ [backslash, apostrophe] @ ''y'' @ [apostrophe]])"
  by code_simp

text \<open>
  C1. \<open>parseParameters\<close> is to split a parameter list at its top-level commas only,
  never at a comma inside a quoted string, whose apostrophes may be escaped by a
  backslash. The code does not: the first alternative of \<open>string_pattern\<close> accepts the
  backslash, so an escaped apostrophe ends the string. The parameter list
  \<^verbatim>\<open>'a\',b'\<close>, one quoted string, is split at its comma into \<^verbatim>\<open>'a\'\<close> and
  \<^verbatim>\<open>b'\<close>.
\<close>

theorem parseParameters_splits_inside_string:
  "parseParameters ([apostrophe] @ ''a'' @ [backslash, apostrophe] @ '',b'' @ [apostrophe]) =
   Some (Inr [[apostrophe] @ ''a'' @ [backslash, apostrophe], ''b'' @ [apostrophe]])"
  by code_simp

text \<open>
  C7. \<open>getLiteralValue\<close> is to return \<open>undefined\<close> for every text that is no literal.
  The text of one apostrophe is no quoted string, yet it both starts and ends with an
  apostrophe, and the code returns the empty string for it.
\<close>

theorem getLiteralValue_lone_apostrophe:
  "getLiteralValue [apostrophe] = JStr []"
  by code_simp

text \<open>
  C9. \<open>replaceBindings\<close> is to return every value that is no string, array or object
  unchanged. For \<open>null\<close> the code raises a \<open>TypeError\<close> instead.
\<close>

theorem replaceBindings_null_throws:
  "replaceBindings E JNull contextHierarchy = Some (Inl (TypeError null_keys_message))"
  by simp

text \<open>
  C5. A path that the pattern of paths does not match raises the parse error that cites
  it; a path that it matches and whose leading identifier is the id of no context of the
  hierarchy resolves to \<open>undefined\<close>.
\<close>

theorem getBindingValue_validates:
  "(\<not> test pathRegex path \<longrightarrow>
      getBindingValue E path contextHierarchy =
        Inl (BeagleParseError (invalid_path_message path))) \<and>
   (test pathRegex path \<and> (\<forall>c \<in> set contextHierarchy. ctx_id c \<noteq> takeWhile is_word path) \<longrightarrow>
      getBindingValue E path contextHierarchy = Inr JUndefined)"
proof (intro conjI impI)
  assume "\<not> test pathRegex path"
  then show "getBindingValue E path contextHierarchy =
      Inl (BeagleParseError (invalid_path_message path))"
    by (simp add: getBindingValue_def)
next
  assume a: "test pathRegex path \<and>
    (\<forall>c \<in> set contextHierarchy. ctx_id c \<noteq> takeWhile is_word path)"
  then have valid: "test pathRegex path" by simp
  from pathRegex_nonempty [OF valid] word_not_delimiter [of "hd path"]
  have "path \<noteq> []" "not_delimiter (hd path)" by auto
  from pathSplit_contextId [OF this] obtain dot contextPath where
    split: "match_parts pathSplitRegex path =
              Some [takeWhile not_delimiter path, dot, contextPath]"
    by blast
  from a pathRegex_leading [OF valid]
  have "getContextInHierarchy contextHierarchy (takeWhile not_delimiter path) = None"
    by (intro getContextInHierarchy_None) simp
  with valid split show "getBindingValue E path contextHierarchy = Inr JUndefined"
    by (simp add: getBindingValue_def)
qed

theorem getBindingValue_validates_witness:
  "\<not> test pathRegex ''user..name'' \<and>
   getBindingValue example_env ''user..name'' example_hierarchy =
     Inl (BeagleParseError (invalid_path_message ''user..name'')) \<and>
   test pathRegex ''order.items[0]'' \<and>
   list_all (\<lambda>c. ctx_id c \<noteq> takeWhile is_word ''order.items[0]'') example_hierarchy \<and>
   getBindingValue example_env ''order.items[0]'' example_hierarchy = Inr JUndefined"
proof -
  have 1: "\<not> test pathRegex ''user..name''" by code_simp
  have 2: "test pathRegex ''order.items[0]''" by code_simp
  have 3: "\<forall>c \<in> set example_hierarchy. ctx_id c \<noteq> takeWhile is_word ''order.items[0]''"
    by code_simp
  from 1 2 3
    getBindingValue_validates [of "''user..name''" example_env example_hierarchy]
    getBindingValue_validates [of "''order.items[0]''" example_env example_hierarchy]
  show ?thesis unfolding list_all_iff by blast
qed

text \<open>
  C10. The empty parameter list gives no parameters, and a call \<open>name()\<close> of a registered
  operation invokes it with no arguments.
\<close>

theorem getOperationValue_no_parameters:
  "parseParameters [] = Some (Inr []) \<and>
   (name \<noteq> [] \<and> (\<forall>c \<in> set name. is_word c) \<and> operations E name = Some f \<longrightarrow>
      getOperationValue E (name @ ''()'') contextHierarchy = Some (f []))"
proof -
  have empty: "parseParameters [] = Some (Inr [])"
    by (simp add: parseParameters_def)
  moreover have "getOperationValue E (name @ ''()'') contextHierarchy = Some (f [])"
    if "name \<noteq> []" "\<forall>c \<in> set name. is_word c" "operations E name = Some f"
    using operationRegex_empty_call [OF that(1,2)] that(3) empty
    by (subst getOperationValue.simps) simp
  ultimately show ?thesis by blast
qed

theorem getOperationValue_no_parameters_witness:
  "''sum'' \<noteq> [] \<and> list_all is_word ''sum'' \<and>
   operations example_env ''sum'' = Some sum_operation \<and>
   parseParameters [] = Some (Inr []) \<and>
   getOperationValue example_env ''sum()'' [] = Some (Inr (JNum 0))"
  using getOperationValue_no_parameters [of "''sum''" example_env sum_operation "[]"]
  by (simp add: is_word_def example_env_def sum_operation_def)

text \<open>
  C6. \<open>evaluateExpression\<close> is to resolve a text that is no literal and has no
  parenthesis as a context binding. The text \<^verbatim>\<open>'a', 'b'\<close>, two quoted strings and a comma,
  is no literal and has no parenthesis, and neither has the text of one apostrophe;
  resolved as context bindings both are invalid paths, a parse error. The code returns a
  string for each, because \<open>getLiteralValue\<close> takes every text that starts and ends with
  an apostrophe for a quoted string. The first text is a binding text: the string of the
  binding with that text is replaced by the string, with no warning.
\<close>

theorem evaluateExpression_takes_non_literal:
  "evaluateExpression E ([apostrophe] @ ''a'' @ [apostrophe] @ '', '' @ [apostrophe] @ ''b'' @
                         [apostrophe]) contextHierarchy =
     Some (Inr (JStr (''a'' @ [apostrophe] @ '', '' @ [apostrophe] @ ''b''))) \<and>
   getBindingValue E ([apostrophe] @ ''a'' @ [apostrophe] @ '', '' @ [apostrophe] @ ''b'' @
                      [apostrophe]) contextHierarchy =
     Inl (BeagleParseError (invalid_path_message
            ([apostrophe] @ ''a'' @ [apostrophe] @ '', '' @ [apostrophe] @ ''b'' @ [apostrophe]))) \<and>
   replaceBindingsInString E
     (binding_open @ [apostrophe] @ ''a'' @ [apostrophe] @ '', '' @ [apostrophe] @ ''b'' @
      [apostrophe] @ binding_close) contextHierarchy =
     Some (JStr (''a'' @ [apostrophe] @ '', '' @ [apostrophe] @ ''b''), []) \<and>
   evaluateExpression E [apostrophe] contextHierarchy = Some (Inr (JStr [])) \<and>
   getBindingValue E [apostrophe] contextHierarchy =
     Inl (BeagleParseError (invalid_path_message [apostrophe])) \<and>
   CHR ''('' \<notin> set ([apostrophe] @ ''a'' @ [apostrophe] @ '', '' @ [apostrophe] @ ''b'' @
                        [apostrophe]) \<and>
   CHR ''('' \<notin> set [apostrophe]"
proof -
  let ?e = "[apostrophe] @ ''a'' @ [apostrophe] @ '', '' @ [apostrophe] @ ''b'' @ [apostrophe]"
  have lit: "getLiteralValue ?e = JStr (''a'' @ [apostrophe] @ '', '' @ [apostrophe] @ ''b'')"
    by code_simp
  have lone: "getLiteralValue [apostrophe] = JStr []" by code_simp
  have ev: "evaluateExpression E ?e contextHierarchy =
      Some (Inr (JStr (''a'' @ [apostrophe] @ '', '' @ [apostrophe] @ ''b'')))"
    using lit by (subst evaluateExpression.simps) (simp add: Let_def)
  have ev1: "evaluateExpression E [apostrophe] contextHierarchy = Some (Inr (JStr []))"
    using lone by (subst evaluateExpression.simps) (simp add: Let_def)
  have no_path: "\<not> test pathRegex ?e" "\<not> test pathRegex [apostrophe]" by code_simp+
  then have b: "getBindingValue E ?e contextHierarchy =
      Inl (BeagleParseError (invalid_path_message ?e))"
    and b1: "getBindingValue E [apostrophe] contextHierarchy =
      Inl (BeagleParseError (invalid_path_message [apostrophe]))"
    by (simp_all add: getBindingValue_def)
  have body: "length ?e \<in> set (rmatch binding_body ?e)" by code_simp
  have whole: "replaceBindingsInString E (binding_open @ ?e @ binding_close) contextHierarchy =
      Some (JStr (''a'' @ [apostrophe] @ '', '' @ [apostrophe] @ ''b''), [])"
    using fullBinding_match [OF body] ev by (simp add: replaceBindingsInString_def)
  from ev b whole ev1 b1 show ?thesis by simp
qed

text \<open>
  C3. A string that is one binding and nothing else (the opening, a text that the pattern
  of binding texts consumes whole, the closing brace) is replaced by the value of its
  expression as it is, whatever its type; when the evaluation throws or gives
  \<open>undefined\<close>, the string itself is returned.
\<close>

theorem replaceBindingsInString_full_binding:
  assumes "length expr \<in> set (rmatch binding_body expr)"
  shows "\<exists>r. evaluateExpression E expr contextHierarchy = Some r \<and>
           replaceBindingsInString E (binding_open @ expr @ binding_close) contextHierarchy =
             Some (case r of
                     Inr v \<Rightarrow> (if v = JUndefined
                                then JStr (binding_open @ expr @ binding_close) else v, [])
                   | Inl e \<Rightarrow> (JStr (binding_open @ expr @ binding_close), [e]))"
proof -
  from evaluateExpression_total obtain r where
    r: "evaluateExpression E expr contextHierarchy = Some r" by blast
  with fullBinding_match [OF assms] show ?thesis
    by (cases r) (simp_all add: replaceBindingsInString_def)
qed

theorem replaceBindingsInString_full_binding_witness:
  "length ''sum(1,2)'' \<in> set (rmatch binding_body ''sum(1,2)'') \<and>
   evaluateExpression example_env ''sum(1,2)'' example_hierarchy = Some (Inr (JNum 3)) \<and>
   replaceBindingsInString example_env (binding_open @ ''sum(1,2)'' @ binding_close)
     example_hierarchy = Some (JNum 3, [])"
proof -
  have 1: "length ''sum(1,2)'' \<in> set (rmatch binding_body ''sum(1,2)'')" by code_simp
  have 2: "evaluateExpression example_env ''sum(1,2)'' example_hierarchy = Some (Inr (JNum 3))"
    by code_simp
  from replaceBindingsInString_full_binding [OF 1, of example_env example_hierarchy] 1 2
  show ?thesis by simp
qed








end
